theory Spec2Isabelle
  imports Main "HOL-Library.Word"
begin

section \<open>The X11 chain of contrib/x11/hashblock.h\<close>

text \<open>
  \<^verbatim>\<open>hashblock.h\<close> holds two functions: \<^verbatim>\<open>trim256\<close>, which copies 32 bytes, and
  \<^verbatim>\<open>HashX11\<close>, which runs five sphlib primitives one after the other over a local array
  \<^verbatim>\<open>unsigned char hash[5][64]\<close> and hands the first half of the last row to the caller.
  Both work through raw pointers, so the model has one byte-addressed memory in which
  the caller's input, the caller's output buffer, the static \<^verbatim>\<open>pblank\<close> and the local
  array \<^verbatim>\<open>hash\<close> all live. Pointers and \<^verbatim>\<open>size_t\<close> are 64-bit words (an LP64 target):
  pointer arithmetic and the length \<^verbatim>\<open>(pend - pbegin) * sizeof(pbegin[0])\<close> wrap as they
  do in the machine.
\<close>

subsection \<open>Memory\<close>

type_synonym byte = "8 word"
type_synonym addr = "64 word"
type_synonym mem = "addr \<Rightarrow> byte"

text \<open>Reading \<open>n\<close> bytes upwards from \<open>p\<close>.\<close>

fun load :: "mem \<Rightarrow> addr \<Rightarrow> nat \<Rightarrow> byte list" where
  "load m p 0 = []"
| "load m p (Suc n) = m p # load m (p + 1) n"

text \<open>Writing a byte string upwards from \<open>p\<close>, first byte first.\<close>

fun store :: "mem \<Rightarrow> addr \<Rightarrow> byte list \<Rightarrow> mem" where
  "store m p [] = m"
| "store m p (b # bs) = store (m(p := b)) (p + 1) bs"

text \<open>The addresses of the \<open>n\<close> bytes that start at \<open>p\<close> (modulo \<open>2 ^ 64\<close>).\<close>

definition region :: "addr \<Rightarrow> nat \<Rightarrow> addr set" where
  "region p n = {a. unat (a - p) < n}"

subsection \<open>The sphlib primitives\<close>

text \<open>
  Modelled from the spec: the headers \<^verbatim>\<open>sph_blake.h\<close>, \<^verbatim>\<open>sph_groestl.h\<close>,
  \<^verbatim>\<open>sph_cubehash.h\<close>, \<^verbatim>\<open>sph_shavite.h\<close> and \<^verbatim>\<open>sph_echo.h\<close> and the code behind them are
  not part of the source at hand. A primitive is therefore a parameter: any three
  operations of the uniform lifecycle \<open>init\<close>, \<open>update(bytes)\<close>, \<open>finalize\<close> over a context
  type of its own. Nothing is assumed about what it computes, and in particular not how
  many bytes \<open>finalize\<close> delivers.
\<close>

record 'ctx sph =
  sph_init :: "'ctx"
  sph_update :: "'ctx \<Rightarrow> byte list \<Rightarrow> 'ctx"
  sph_close :: "'ctx \<Rightarrow> byte list"

text \<open>
  The C calls. \<^verbatim>\<open>sph_xxx512(&ctx, data, len)\<close> absorbs the \<open>len\<close> bytes found at \<open>data\<close>;
  \<^verbatim>\<open>sph_xxx512_close(&ctx, dst)\<close> writes the digest at \<open>dst\<close>. Apart from the context and
  the bytes at \<open>dst\<close> a primitive changes nothing.
\<close>

definition sph_absorb :: "'ctx sph \<Rightarrow> 'ctx \<Rightarrow> mem \<Rightarrow> addr \<Rightarrow> 64 word \<Rightarrow> 'ctx" where
  "sph_absorb p ctx m data len = sph_update p ctx (load m data (unat len))"

definition sph_finish :: "'ctx sph \<Rightarrow> 'ctx \<Rightarrow> mem \<Rightarrow> addr \<Rightarrow> mem" where
  "sph_finish p ctx m dst = store m dst (sph_close p ctx)"

subsection \<open>The two functions of the source\<close>

definition HASH512_SIZE :: nat where
  "HASH512_SIZE = 64"

definition HASH256_SIZE :: nat where
  "HASH256_SIZE = 32"

text \<open>
  \<^verbatim>\<open>for (unsigned int i = 0; i < HASH256_SIZE; i++) ret[i] = pn[i];\<close> The loop is
  \<open>trim256_from\<close>, started at \<open>i = 0\<close>. Source and destination are pointers into the
  same memory, so an overlap of the two shows in the model as it would in the machine.
\<close>

function trim256_from :: "nat \<Rightarrow> addr \<Rightarrow> addr \<Rightarrow> mem \<Rightarrow> mem" where
  "trim256_from i pn ret m =
     (if i < HASH256_SIZE
      then trim256_from (i + 1) pn ret (m(ret + of_nat i := m (pn + of_nat i)))
      else m)"
  by pat_completeness auto
termination
  by (relation "measure (\<lambda>(i, pn, ret, m). HASH256_SIZE - i)") auto

definition trim256 :: "addr \<Rightarrow> addr \<Rightarrow> mem \<Rightarrow> mem" where
  "trim256 pn ret m = trim256_from 0 pn ret m"

text \<open>The address of the row \<^verbatim>\<open>hash[i]\<close> of \<^verbatim>\<open>unsigned char hash[5][HASH512_SIZE]\<close>.\<close>

definition hash_row :: "addr \<Rightarrow> nat \<Rightarrow> addr" where
  "hash_row hash i = hash + of_nat (i * HASH512_SIZE)"

text \<open>The two arguments that line 32 hands to \<^verbatim>\<open>sph_blake512\<close> besides the context.\<close>

definition blake_data :: "addr \<Rightarrow> addr \<Rightarrow> addr \<Rightarrow> addr" where
  "blake_data pblank pbegin pend = (if pbegin = pend then pblank else pbegin)"

definition blake_len :: "addr \<Rightarrow> addr \<Rightarrow> 64 word" where
  "blake_len pbegin pend = (pend - pbegin) * 1"

text \<open>
  \<open>HashX11\<close>, statement by statement. Besides the five primitives the model is given
  the address of the static \<^verbatim>\<open>pblank\<close>, the address at which this call's frame holds
  \<^verbatim>\<open>hash\<close>, and the memory; it returns the C return value and the memory it leaves. The
  array \<^verbatim>\<open>hash\<close> is not initialised: its rows hold whatever the memory held there.
\<close>

definition HashX11 ::
  "'a sph \<Rightarrow> 'b sph \<Rightarrow> 'c sph \<Rightarrow> 'd sph \<Rightarrow> 'e sph \<Rightarrow>
   addr \<Rightarrow> addr \<Rightarrow> mem \<Rightarrow> addr \<Rightarrow> addr \<Rightarrow> addr \<Rightarrow> bool \<times> mem" where
  "HashX11 blake groestl cubehash shavite echo pblank hash m pbegin pend pResult =
     (let ctx_blake = sph_init blake;
          ctx_blake = sph_absorb blake ctx_blake m
                        (blake_data pblank pbegin pend) (blake_len pbegin pend);
          m = sph_finish blake ctx_blake m (hash_row hash 0);

          ctx_groestl = sph_init groestl;
          ctx_groestl = sph_absorb groestl ctx_groestl m (hash_row hash 0) 64;
          m = sph_finish groestl ctx_groestl m (hash_row hash 1);

          ctx_cubehash = sph_init cubehash;
          ctx_cubehash = sph_absorb cubehash ctx_cubehash m (hash_row hash 1) 64;
          m = sph_finish cubehash ctx_cubehash m (hash_row hash 2);

          ctx_shavite = sph_init shavite;
          ctx_shavite = sph_absorb shavite ctx_shavite m (hash_row hash 2) 64;
          m = sph_finish shavite ctx_shavite m (hash_row hash 3);

          ctx_echo = sph_init echo;
          ctx_echo = sph_absorb echo ctx_echo m (hash_row hash 3) 64;
          m = sph_finish echo ctx_echo m (hash_row hash 4);

          m = trim256 (hash_row hash 4) pResult m
      in (True, m))"

subsection \<open>The chain as the specification words it\<close>

text \<open>One stage: a fresh primitive run over a byte string.\<close>

definition sph_digest :: "'ctx sph \<Rightarrow> byte list \<Rightarrow> byte list" where
  "sph_digest p bs = sph_close p (sph_update p (sph_init p) bs)"

text \<open>
  The five stage digests of the specification's steps 1 to 5, in order, and step 6, the
  truncation: \<open>computeDigest\<close>.
\<close>

definition stage_digests ::
  "'a sph \<Rightarrow> 'b sph \<Rightarrow> 'c sph \<Rightarrow> 'd sph \<Rightarrow> 'e sph \<Rightarrow> byte list \<Rightarrow> byte list list" where
  "stage_digests blake groestl cubehash shavite echo input =
     (let d1 = sph_digest blake input;
          d2 = sph_digest groestl d1;
          d3 = sph_digest cubehash d2;
          d4 = sph_digest shavite d3;
          d5 = sph_digest echo d4
      in [d1, d2, d3, d4, d5])"

definition computeDigest ::
  "'a sph \<Rightarrow> 'b sph \<Rightarrow> 'c sph \<Rightarrow> 'd sph \<Rightarrow> 'e sph \<Rightarrow> byte list \<Rightarrow> byte list" where
  "computeDigest blake groestl cubehash shavite echo input =
     take 32 (stage_digests blake groestl cubehash shavite echo input ! 4)"

text \<open>
  The memory in which the rows \<open>i\<close>, \<open>i + 1\<close>, ... of \<^verbatim>\<open>hash\<close> have been written with
  the given digests, one after the other.
\<close>

fun fill_rows :: "addr \<Rightarrow> nat \<Rightarrow> mem \<Rightarrow> byte list list \<Rightarrow> mem" where
  "fill_rows hash i m [] = m"
| "fill_rows hash i m (d # ds) = fill_rows hash (Suc i) (store m (hash_row hash i) d) ds"

text \<open>
  Modelled from the spec: the adapter contract "finalize returns exactly 64 bytes",
  for the contexts a one-shot run can reach.
\<close>

definition emits512 :: "'ctx sph \<Rightarrow> bool" where
  "emits512 p \<longleftrightarrow> (\<forall>bs. length (sph_digest p bs) = HASH512_SIZE)"

text \<open>The caller's input: the bytes of the range from \<open>pbegin\<close> up to \<open>pend\<close>.\<close>

definition input_bytes :: "mem \<Rightarrow> addr \<Rightarrow> addr \<Rightarrow> byte list" where
  "input_bytes m pbegin pend = load m pbegin (unat (pend - pbegin))"

text \<open>The 32 bytes found in the caller's output buffer after a call.\<close>

definition output_bytes :: "bool \<times> mem \<Rightarrow> addr \<Rightarrow> byte list" where
  "output_bytes r pResult = load (snd r) pResult HASH256_SIZE"

subsection \<open>Test doubles\<close>

text \<open>
  A primitive for running the model: it collects what it absorbs and delivers the first
  \<open>n\<close> bytes of it (zero-padded), each with \<open>k\<close> added. With \<open>n = 64\<close> it keeps the
  adapter contract, with any other \<open>n\<close> it breaks it.
\<close>

definition double :: "nat \<Rightarrow> byte \<Rightarrow> (byte list) sph" where
  "double n k =
     \<lparr>sph_init = [],
      sph_update = (\<lambda>ctx bs. ctx @ bs),
      sph_close = (\<lambda>ctx. map (\<lambda>b. b + k) (take n (ctx @ replicate n 0)))\<rparr>"

text \<open>
  A primitive turned into another one: it delivers the same first 32 digest bytes and
  every later byte raised by one.
\<close>

definition tail_swapped :: "'ctx sph \<Rightarrow> 'ctx sph" where
  "tail_swapped p =
     p\<lparr>sph_close := (\<lambda>ctx. take 32 (sph_close p ctx) @ map (\<lambda>b. b + 1) (drop 32 (sph_close p ctx)))\<rparr>"

text \<open>
  A primitive corrupted: every byte of its digest is raised by \<open>j\<close>.
\<close>

definition corrupted :: "byte \<Rightarrow> 'ctx sph \<Rightarrow> 'ctx sph" where
  "corrupted j p = p\<lparr>sph_close := (\<lambda>ctx. map (\<lambda>b. b + j) (sph_close p ctx))\<rparr>"

text \<open>A memory for running the model: the byte at address \<open>a\<close> is \<open>a\<close> modulo 256.\<close>

definition ramp :: mem where
  "ramp a = ucast a"

section \<open>Memory lemmas\<close>

declare trim256_from.simps [simp del]

lemma length_load: "length (load m p n) = n"
  by (induction n arbitrary: p) simp_all

lemma region_Suc: "a \<in> region p (Suc n) \<longleftrightarrow> a = p \<or> a \<in> region (p + 1) n"
proof (cases "a = p")
  case True
  then show ?thesis by (simp add: region_def)
next
  case False
  then have nz: "a - p \<noteq> 0" by simp
  have eq1: "a - (p + 1) = (a - p) - 1" by simp
  have "unat (a - (p + 1)) = unat (a - p) - 1"
    by (simp only: eq1 unat_minus_one [OF nz])
  moreover have "0 < unat (a - p)" using nz by (simp add: unat_gt_0)
  ultimately show ?thesis using False unfolding region_def mem_Collect_eq by linarith
qed

lemma store_frame: "a \<notin> region p (length d) \<Longrightarrow> store m p d a = m a"
  by (induction d arbitrary: m p) (auto simp: region_Suc)

lemma load_cong: "(\<And>a. a \<in> region p n \<Longrightarrow> m a = m' a) \<Longrightarrow> load m p n = load m' p n"
  by (induction n arbitrary: p) (auto simp: region_Suc)

lemma self_notin_next: "n < 2 ^ 64 \<Longrightarrow> p \<notin> region (p + 1) n"
  for p :: addr
proof -
  have "p - (p + 1) = - 1" by simp
  then have "unat (p - (p + 1)) = 2 ^ 64 - 1"
    by (simp add: unsigned_minus_1_eq_mask mask_eq_exp_minus_1)
  then show "n < 2 ^ 64 \<Longrightarrow> p \<notin> region (p + 1) n" by (simp add: region_def)
qed

lemma region_mono: "n \<le> k \<Longrightarrow> region p n \<subseteq> region p k"
  by (auto simp: region_def)

lemma region_shift: "a \<in> region (p + of_nat i) n \<Longrightarrow> a \<in> region p (i + n)"
proof (induction i arbitrary: p)
  case 0
  then show ?case by simp
next
  case (Suc i)
  have "p + of_nat (Suc i) = (p + 1) + of_nat i" by simp
  with Suc.prems have "a \<in> region ((p + 1) + of_nat i) n" by (simp only:)
  then have "a \<in> region (p + 1) (i + n)" by (rule Suc.IH)
  then show ?case by (simp add: region_Suc)
qed

text \<open>
  Reading back what was just written: the bytes written, cut to what is read, and past
  them what the memory held before.
\<close>

lemma load_store: "length d < 2 ^ 64 \<Longrightarrow> n \<le> 2 ^ 64 \<Longrightarrow>
  load (store m p d) p n = take n d @ drop (length d) (load m p n)"
proof (induction d arbitrary: m p n)
  case Nil
  then show ?case by simp
next
  case (Cons b bs)
  show ?case
  proof (cases n)
    case 0
    then show ?thesis by simp
  next
    case (Suc k)
    have len: "length bs < 2 ^ 64" using Cons.prems by simp
    have k': "k < 2 ^ 64" and k: "k \<le> 2 ^ 64" using Cons.prems Suc by simp_all
    have "p \<notin> region (p + 1) (length bs)" using len by (rule self_notin_next)
    then have here: "store (m(p := b)) (p + 1) bs p = b" by (simp add: store_frame)
    have rest: "load (store (m(p := b)) (p + 1) bs) (p + 1) k
        = take k bs @ drop (length bs) (load (m(p := b)) (p + 1) k)"
      using len k by (rule Cons.IH)
    have "p \<notin> region (p + 1) k" using k' by (rule self_notin_next)
    then have "load (m(p := b)) (p + 1) k = load m (p + 1) k"
      by (intro load_cong) auto
    then show ?thesis using here rest Suc by simp
  qed
qed

lemma take_load: "k \<le> n \<Longrightarrow> take k (load m p n) = load m p k"
proof (induction n arbitrary: p k)
  case 0
  then show ?case by simp
next
  case (Suc n)
  then show ?case by (cases k) simp_all
qed

lemma load_nth: "i < n \<Longrightarrow> load m p n ! i = m (p + of_nat i)"
proof (induction n arbitrary: p i)
  case 0
  then show ?case by simp
next
  case (Suc n)
  show ?case
  proof (cases i)
    case 0
    then show ?thesis by simp
  next
    case (Suc j)
    then have "load m (p + 1) n ! j = m (p + 1 + of_nat j)" using Suc.prems by (intro Suc.IH) simp
    then show ?thesis using Suc by (simp add: add.assoc)
  qed
qed

lemma offset_in_region: "i < n \<Longrightarrow> p + of_nat i \<in> region p n"
  for p :: addr
proof -
  have "unat (of_nat i :: addr) \<le> i" by (simp add: unat_of_nat)
  then show "i < n \<Longrightarrow> p + of_nat i \<in> region p n" by (simp add: region_def)
qed

lemma region_disjointI:
  assumes "n \<le> unat (q - p)" and "k \<le> unat (p - q)"
  shows "region p n \<inter> region q k = {}"
proof -
  have False if ap: "unat (a - p) < n" and aq: "unat (a - q) < k" for a
  proof (cases "a - q \<le> a - p")
    case True
    then have "unat ((a - p) - (a - q)) = unat (a - p) - unat (a - q)" by (rule unat_sub)
    moreover have "(a - p) - (a - q) = q - p" by simp
    ultimately show False using ap assms(1) by simp
  next
    case False
    then have "a - p \<le> a - q" by simp
    then have "unat ((a - q) - (a - p)) = unat (a - q) - unat (a - p)" by (rule unat_sub)
    moreover have "(a - q) - (a - p) = p - q" by simp
    ultimately show False using aq assms(2) by simp
  qed
  then show ?thesis by (auto simp: region_def)
qed

lemma region_offset:
  fixes p :: addr
  assumes "x + n \<le> 2 ^ 64"
  shows "a \<in> region (p + of_nat x) n \<longleftrightarrow> x \<le> unat (a - p) \<and> unat (a - p) < x + n"
proof (cases "n = 0")
  case True
  then show ?thesis by (simp add: region_def)
next
  case False
  with assms have x: "x < 2 ^ 64" by simp
  then have ux: "unat (of_nat x :: addr) = x" by (simp add: unat_of_nat)
  have u: "unat (a - p) < 2 ^ 64" using unsigned_less [of "a - p"] by simp
  have eq: "a - (p + of_nat x) = (a - p) - of_nat x" by simp
  have "unat (a - (p + of_nat x)) =
      (if x \<le> unat (a - p) then unat (a - p) - x else unat (a - p) + 2 ^ 64 - x)"
    unfolding eq using unat_sub_if_size [of "a - p" "of_nat x"] unfolding ux word_size
    by simp
  then show ?thesis using assms u unfolding region_def mem_Collect_eq
    by (auto split: if_splits)
qed

section \<open>The copy loop\<close>

lemma trim256_from_frame: "a \<notin> region ret HASH256_SIZE \<Longrightarrow> trim256_from i pn ret m a = m a"
proof (induction i pn ret m rule: trim256_from.induct)
  case (1 i pn ret m)
  show ?case
  proof (cases "i < HASH256_SIZE")
    case True
    then have "ret + of_nat i \<in> region ret HASH256_SIZE" by (rule offset_in_region)
    with "1.prems" have "a \<noteq> ret + of_nat i" by auto
    moreover have "trim256_from (i + 1) pn ret (m(ret + of_nat i := m (pn + of_nat i))) a
        = (m(ret + of_nat i := m (pn + of_nat i))) a"
      using True "1.prems" by (rule "1.IH")
    ultimately show ?thesis using True by (subst trim256_from.simps) simp
  next
    case False
    then show ?thesis by (subst trim256_from.simps) simp
  qed
qed

lemma trim256_from_copy:
  "region ret HASH256_SIZE \<inter> region pn HASH256_SIZE = {} \<Longrightarrow> i \<le> HASH256_SIZE \<Longrightarrow>
   trim256_from i pn ret m =
     store m (ret + of_nat i) (load m (pn + of_nat i) (HASH256_SIZE - i))"
proof (induction i pn ret m rule: trim256_from.induct)
  case (1 i pn ret m)
  note sep = "1.prems"(1)
  show ?case
  proof (cases "i < HASH256_SIZE")
    case True
    define m' where "m' = m(ret + of_nat i := m (pn + of_nat i))"
    define k where "k = HASH256_SIZE - (i + 1)"
    have k1: "HASH256_SIZE - i = Suc k" using True by (simp add: k_def)
    have k2: "i + 1 + k = HASH256_SIZE" using True by (simp add: k_def)
    have w: "ret + of_nat i \<in> region ret HASH256_SIZE" using True by (rule offset_in_region)
    have same: "load m' (pn + of_nat (i + 1)) k = load m (pn + of_nat (i + 1)) k"
    proof (rule load_cong)
      fix a assume "a \<in> region (pn + of_nat (i + 1)) k"
      then have "a \<in> region pn (i + 1 + k)" by (rule region_shift)
      then have "a \<in> region pn HASH256_SIZE" by (simp only: k2)
      with sep w have "a \<noteq> ret + of_nat i" by blast
      then show "m' a = m a" by (simp add: m'_def)
    qed
    have next_ret: "ret + of_nat (i + 1) = ret + of_nat i + 1"
      and next_pn: "pn + of_nat (i + 1) = pn + of_nat i + 1" by simp_all
    have "trim256_from i pn ret m = trim256_from (i + 1) pn ret m'"
      using True by (subst trim256_from.simps) (simp add: m'_def)
    also have "\<dots> = store m' (ret + of_nat (i + 1)) (load m' (pn + of_nat (i + 1)) k)"
      unfolding m'_def k_def using True sep by (intro "1.IH") simp_all
    also have "\<dots> = store m' (ret + of_nat (i + 1)) (load m (pn + of_nat (i + 1)) k)"
      by (simp only: same)
    also have "\<dots> = store m (ret + of_nat i) (m (pn + of_nat i) # load m (pn + of_nat i + 1) k)"
      by (simp only: store.simps m'_def next_ret next_pn)
    also have "\<dots> = store m (ret + of_nat i) (load m (pn + of_nat i) (HASH256_SIZE - i))"
      by (simp only: k1 load.simps)
    finally show ?thesis .
  next
    case False
    with "1.prems"(2) have "i = HASH256_SIZE" by simp
    then show ?thesis by (subst trim256_from.simps) simp
  qed
qed

lemma trim256_copy:
  "region ret HASH256_SIZE \<inter> region pn HASH256_SIZE = {} \<Longrightarrow>
   trim256 pn ret m = store m ret (load m pn HASH256_SIZE)"
  using trim256_from_copy [of ret pn 0 m] by (simp add: trim256_def)

section \<open>The chain in memory\<close>

lemma blake_absorbs_input:
  "load m (blake_data pblank pbegin pend) (unat (blake_len pbegin pend)) = input_bytes m pbegin pend"
  by (simp add: blake_data_def blake_len_def input_bytes_def)

lemma load_digest:
  "length d = HASH512_SIZE \<Longrightarrow> load (store m p d) p 64 = d"
  by (simp add: load_store HASH512_SIZE_def length_load)

lemma HashX11_true:
  "fst (HashX11 blake groestl cubehash shavite echo pblank hash m pbegin pend pResult) = True"
  by (simp add: HashX11_def Let_def)

lemma HashX11_unfolded:
  "HashX11 blake groestl cubehash shavite echo pblank hash m pbegin pend pResult =
     (let m1 = store m (hash_row hash 0) (sph_digest blake (input_bytes m pbegin pend));
          m2 = store m1 (hash_row hash 1) (sph_digest groestl (load m1 (hash_row hash 0) 64));
          m3 = store m2 (hash_row hash 2) (sph_digest cubehash (load m2 (hash_row hash 1) 64));
          m4 = store m3 (hash_row hash 3) (sph_digest shavite (load m3 (hash_row hash 2) 64));
          m5 = store m4 (hash_row hash 4) (sph_digest echo (load m4 (hash_row hash 3) 64))
      in (True, trim256 (hash_row hash 4) pResult m5))"
  by (simp add: HashX11_def Let_def sph_absorb_def sph_finish_def sph_digest_def
      blake_absorbs_input)

lemma fill_rows_5:
  "fill_rows hash 0 m [d1, d2, d3, d4, d5] =
     store (store (store (store (store m (hash_row hash 0) d1) (hash_row hash 1) d2)
       (hash_row hash 2) d3) (hash_row hash 3) d4) (hash_row hash 4) d5"
  by (simp add: eval_nat_numeral)

lemma HashX11_rows:
  assumes "emits512 blake" "emits512 groestl" "emits512 cubehash" "emits512 shavite"
  shows "HashX11 blake groestl cubehash shavite echo pblank hash m pbegin pend pResult =
     (True, trim256 (hash_row hash 4) pResult
        (fill_rows hash 0 m
           (stage_digests blake groestl cubehash shavite echo (input_bytes m pbegin pend))))"
proof -
  have len: "length (sph_digest blake bs) = HASH512_SIZE"
    "length (sph_digest groestl bs) = HASH512_SIZE"
    "length (sph_digest cubehash bs) = HASH512_SIZE"
    "length (sph_digest shavite bs) = HASH512_SIZE" for bs
    using assms by (simp_all add: emits512_def)
  show ?thesis
    by (simp add: HashX11_unfolded stage_digests_def Let_def load_digest len fill_rows_5
        del: fill_rows.simps)
qed

lemma row_region:
  "i < 5 \<Longrightarrow> a \<in> region (hash_row hash i) HASH512_SIZE \<longleftrightarrow>
     i * 64 \<le> unat (a - hash) \<and> unat (a - hash) < i * 64 + 64"
  unfolding hash_row_def HASH512_SIZE_def by (rule region_offset) simp

lemma row_in_frame:
  assumes "i < 5" and "a \<in> region (hash_row hash i) HASH512_SIZE"
  shows "a \<in> region hash (5 * HASH512_SIZE)"
proof -
  have "unat (a - hash) < i * 64 + 64" using assms by (simp add: row_region)
  then show ?thesis using assms(1) by (simp add: region_def HASH512_SIZE_def)
qed

lemma rows_disjoint:
  assumes "i < 5" "j < 5" "i \<noteq> j" and "a \<in> region (hash_row hash i) HASH512_SIZE"
  shows "a \<notin> region (hash_row hash j) HASH512_SIZE"
  using assms by (auto simp: row_region)

lemma out_off_row:
  assumes sep: "region pResult HASH256_SIZE \<inter> region hash (5 * HASH512_SIZE) = {}"
    and "i < 5"
  shows "region pResult HASH256_SIZE \<inter> region (hash_row hash i) HASH512_SIZE = {}"
  using assms row_in_frame [of i _ hash] by blast

lemma fill_rows_frame:
  "\<forall>d\<in>set ds. length d = HASH512_SIZE \<Longrightarrow>
   \<forall>j. i \<le> j \<and> j < i + length ds \<longrightarrow> a \<notin> region (hash_row hash j) HASH512_SIZE \<Longrightarrow>
   fill_rows hash i m ds a = m a"
proof (induction ds arbitrary: i m)
  case Nil
  then show ?case by simp
next
  case (Cons d ds)
  have "a \<notin> region (hash_row hash i) (length d)" using Cons.prems by simp
  then have "store m (hash_row hash i) d a = m a" by (rule store_frame)
  moreover have "fill_rows hash (Suc i) (store m (hash_row hash i) d) ds a
      = store m (hash_row hash i) d a"
    using Cons.prems by (intro Cons.IH) auto
  ultimately show ?case by simp
qed

lemma fill_rows_outside:
  assumes "\<forall>d\<in>set ds. length d = HASH512_SIZE" and "length ds \<le> 5"
    and "a \<notin> region hash (5 * HASH512_SIZE)"
  shows "fill_rows hash 0 m ds a = m a"
  using assms(1)
proof (rule fill_rows_frame)
  show "\<forall>j. 0 \<le> j \<and> j < 0 + length ds \<longrightarrow> a \<notin> region (hash_row hash j) HASH512_SIZE"
  proof (intro allI impI)
    fix j assume "0 \<le> j \<and> j < 0 + length ds"
    then have "j < 5" using assms(2) by simp
    then show "a \<notin> region (hash_row hash j) HASH512_SIZE"
      using assms(3) row_in_frame [of j a hash] by blast
  qed
qed

lemma fill_rows_row:
  "\<forall>d\<in>set ds. length d = HASH512_SIZE \<Longrightarrow> i + length ds \<le> 5 \<Longrightarrow> j < length ds \<Longrightarrow>
   load (fill_rows hash i m ds) (hash_row hash (i + j)) 64 = ds ! j"
proof (induction ds arbitrary: i m j)
  case Nil
  then show ?case by simp
next
  case (Cons d ds)
  show ?case
  proof (cases j)
    case 0
    have "load (fill_rows hash (Suc i) (store m (hash_row hash i) d) ds) (hash_row hash i) 64
        = load (store m (hash_row hash i) d) (hash_row hash i) 64"
    proof (rule load_cong)
      fix a assume a: "a \<in> region (hash_row hash i) 64"
      show "fill_rows hash (Suc i) (store m (hash_row hash i) d) ds a
          = store m (hash_row hash i) d a"
      proof (rule fill_rows_frame)
        show "\<forall>d\<in>set ds. length d = HASH512_SIZE" using Cons.prems(1) by simp
        show "\<forall>j. Suc i \<le> j \<and> j < Suc i + length ds \<longrightarrow>
            a \<notin> region (hash_row hash j) HASH512_SIZE"
          using a Cons.prems(2) rows_disjoint [of i _ a hash]
          by (auto simp: HASH512_SIZE_def)
      qed
    qed
    also have "\<dots> = d" using Cons.prems(1) by (simp add: load_digest)
    finally show ?thesis using 0 by simp
  next
    case (Suc k)
    have "load (fill_rows hash (Suc i) (store m (hash_row hash i) d) ds)
        (hash_row hash (Suc i + k)) 64 = ds ! k"
      using Cons.prems Suc by (intro Cons.IH) auto
    then show ?thesis using Suc by simp
  qed
qed

lemma stage_digests_length:
  "length (stage_digests blake groestl cubehash shavite echo input) = 5"
  by (simp add: stage_digests_def Let_def)

lemma stage_digests_emit:
  assumes "emits512 blake" "emits512 groestl" "emits512 cubehash" "emits512 shavite"
    "emits512 echo"
  shows "\<forall>d\<in>set (stage_digests blake groestl cubehash shavite echo input).
    length d = HASH512_SIZE"
  using assms by (simp add: stage_digests_def Let_def emits512_def)

lemma HashX11_general:
  assumes "emits512 groestl" "emits512 cubehash" "emits512 shavite" "emits512 echo"
    and len1: "length (sph_digest blake (input_bytes m pbegin pend)) < 2 ^ 64"
    and sep: "region pResult HASH256_SIZE \<inter> region hash (5 * HASH512_SIZE) = {}"
  shows "output_bytes
      (HashX11 blake groestl cubehash shavite echo pblank hash m pbegin pend pResult) pResult =
    take 32 (sph_digest echo (sph_digest shavite (sph_digest cubehash (sph_digest groestl
      (take 64 (sph_digest blake (input_bytes m pbegin pend)) @
       drop (length (sph_digest blake (input_bytes m pbegin pend)))
         (load m (hash_row hash 0) 64))))))"
proof -
  define d1 where "d1 = sph_digest blake (input_bytes m pbegin pend)"
  define x1 where "x1 = take 64 d1 @ drop (length d1) (load m (hash_row hash 0) 64)"
  define d2 where "d2 = sph_digest groestl x1"
  define d3 where "d3 = sph_digest cubehash d2"
  define d4 where "d4 = sph_digest shavite d3"
  define d5 where "d5 = sph_digest echo d4"
  define m1 where "m1 = store m (hash_row hash 0) d1"
  define m2 where "m2 = store m1 (hash_row hash 1) d2"
  define m3 where "m3 = store m2 (hash_row hash 2) d3"
  define m4 where "m4 = store m3 (hash_row hash 3) d4"
  define m5 where "m5 = store m4 (hash_row hash 4) d5"
  have len: "length d2 = HASH512_SIZE" "length d3 = HASH512_SIZE" "length d4 = HASH512_SIZE"
    "length d5 = HASH512_SIZE"
    using assms(1-4) by (simp_all add: emits512_def d2_def d3_def d4_def d5_def)
  have r1: "load m1 (hash_row hash 0) 64 = x1"
    unfolding m1_def x1_def using len1 by (simp add: load_store d1_def)
  have r2: "load m2 (hash_row hash 1) 64 = d2"
    unfolding m2_def using len(1) by (rule load_digest)
  have r3: "load m3 (hash_row hash 2) 64 = d3"
    unfolding m3_def using len(2) by (rule load_digest)
  have r4: "load m4 (hash_row hash 3) 64 = d4"
    unfolding m4_def using len(3) by (rule load_digest)
  have "load m5 (hash_row hash 4) 64 = d5"
    unfolding m5_def using len(4) by (rule load_digest)
  moreover have "take 32 (load m5 (hash_row hash 4) 64) = load m5 (hash_row hash 4) 32"
    by (rule take_load) simp
  ultimately have r5: "load m5 (hash_row hash 4) HASH256_SIZE = take 32 d5"
    by (simp add: HASH256_SIZE_def)
  have "region pResult HASH256_SIZE \<inter> region (hash_row hash 4) HASH512_SIZE = {}"
    using sep by (rule out_off_row) simp
  moreover have "region (hash_row hash 4) HASH256_SIZE \<subseteq> region (hash_row hash 4) HASH512_SIZE"
    by (rule region_mono) (simp add: HASH256_SIZE_def HASH512_SIZE_def)
  ultimately have "region pResult HASH256_SIZE \<inter> region (hash_row hash 4) HASH256_SIZE = {}"
    by blast
  then have copy: "trim256 (hash_row hash 4) pResult m5 = store m5 pResult (take 32 d5)"
    by (simp only: trim256_copy r5)
  have "HashX11 blake groestl cubehash shavite echo pblank hash m pbegin pend pResult =
      (True, trim256 (hash_row hash 4) pResult m5)"
    unfolding HashX11_unfolded Let_def
    by (simp only: d1_def [symmetric] m1_def [symmetric] r1 d2_def [symmetric]
        m2_def [symmetric] r2 d3_def [symmetric] m3_def [symmetric] r3 d4_def [symmetric]
        m4_def [symmetric] r4 d5_def [symmetric] m5_def [symmetric])
  then have "output_bytes
      (HashX11 blake groestl cubehash shavite echo pblank hash m pbegin pend pResult) pResult
      = load (store m5 pResult (take 32 d5)) pResult HASH256_SIZE"
    by (simp only: output_bytes_def snd_conv copy)
  also have "\<dots> = take 32 d5"
    using len(4) by (simp add: load_store HASH256_SIZE_def HASH512_SIZE_def length_load)
  finally show ?thesis
    by (simp only: d5_def d4_def d3_def d2_def x1_def d1_def)
qed

lemma HashX11_output:
  assumes c: "emits512 blake" "emits512 groestl" "emits512 cubehash" "emits512 shavite"
    "emits512 echo"
    and sep: "region pResult HASH256_SIZE \<inter> region hash (5 * HASH512_SIZE) = {}"
  shows "output_bytes
      (HashX11 blake groestl cubehash shavite echo pblank hash m pbegin pend pResult) pResult =
    computeDigest blake groestl cubehash shavite echo (input_bytes m pbegin pend)"
proof -
  define d1 where "d1 = sph_digest blake (input_bytes m pbegin pend)"
  have l64: "length d1 = 64" using c(1) by (simp add: d1_def emits512_def HASH512_SIZE_def)
  then have "length d1 < 2 ^ 64" by simp
  then have "output_bytes
      (HashX11 blake groestl cubehash shavite echo pblank hash m pbegin pend pResult) pResult =
    take 32 (sph_digest echo (sph_digest shavite (sph_digest cubehash (sph_digest groestl
      (take 64 d1 @ drop (length d1) (load m (hash_row hash 0) 64))))))"
    unfolding d1_def using c(2-5) sep by (intro HashX11_general)
  moreover have "take 64 d1 @ drop (length d1) (load m (hash_row hash 0) 64) = d1"
    using l64 by (simp add: length_load)
  ultimately show ?thesis
    by (simp add: computeDigest_def stage_digests_def Let_def d1_def)
qed

lemma HashX11_frame:
  assumes c: "emits512 blake" "emits512 groestl" "emits512 cubehash" "emits512 shavite"
    "emits512 echo"
    and out: "a \<notin> region pResult HASH256_SIZE"
    and frame: "a \<notin> region hash (5 * HASH512_SIZE)"
  shows "snd (HashX11 blake groestl cubehash shavite echo pblank hash m pbegin pend pResult) a
    = m a"
proof -
  define ds where "ds = stage_digests blake groestl cubehash shavite echo (input_bytes m pbegin pend)"
  have all64: "\<forall>d\<in>set ds. length d = HASH512_SIZE"
    unfolding ds_def using c by (rule stage_digests_emit)
  have five: "length ds \<le> 5" by (simp add: ds_def stage_digests_length)
  have "snd (HashX11 blake groestl cubehash shavite echo pblank hash m pbegin pend pResult)
      = trim256 (hash_row hash 4) pResult (fill_rows hash 0 m ds)"
    unfolding ds_def using c(1-4) by (simp add: HashX11_rows)
  moreover have "trim256 (hash_row hash 4) pResult (fill_rows hash 0 m ds) a
      = fill_rows hash 0 m ds a"
    unfolding trim256_def using out by (rule trim256_from_frame)
  moreover have "fill_rows hash 0 m ds a = m a"
    using all64 five frame by (rule fill_rows_outside)
  ultimately show ?thesis by simp
qed

lemma HashX11_row:
  assumes c: "emits512 blake" "emits512 groestl" "emits512 cubehash" "emits512 shavite"
    "emits512 echo"
    and sep: "region pResult HASH256_SIZE \<inter> region hash (5 * HASH512_SIZE) = {}"
    and i: "i < 5"
  shows "load (snd (HashX11 blake groestl cubehash shavite echo pblank hash m pbegin pend pResult))
      (hash_row hash i) 64
    = stage_digests blake groestl cubehash shavite echo (input_bytes m pbegin pend) ! i"
proof -
  define ds where "ds = stage_digests blake groestl cubehash shavite echo (input_bytes m pbegin pend)"
  define m5 where "m5 = fill_rows hash 0 m ds"
  have all64: "\<forall>d\<in>set ds. length d = HASH512_SIZE"
    unfolding ds_def using c by (rule stage_digests_emit)
  have five: "length ds = 5" by (simp add: ds_def stage_digests_length)
  have r: "snd (HashX11 blake groestl cubehash shavite echo pblank hash m pbegin pend pResult)
      = trim256 (hash_row hash 4) pResult m5"
    unfolding ds_def m5_def using c(1-4) by (simp add: HashX11_rows)
  have off: "region pResult HASH256_SIZE \<inter> region (hash_row hash i) HASH512_SIZE = {}"
    using sep i by (rule out_off_row)
  have "load (trim256 (hash_row hash 4) pResult m5) (hash_row hash i) 64
      = load m5 (hash_row hash i) 64"
  proof (rule load_cong)
    fix a assume "a \<in> region (hash_row hash i) 64"
    then have "a \<notin> region pResult HASH256_SIZE"
      using off by (auto simp: HASH512_SIZE_def)
    then show "trim256 (hash_row hash 4) pResult m5 a = m5 a"
      unfolding trim256_def by (rule trim256_from_frame)
  qed
  moreover have "load m5 (hash_row hash (0 + i)) 64 = ds ! i"
    unfolding m5_def using all64 by (rule fill_rows_row) (simp_all add: five i)
  ultimately show ?thesis by (simp add: r ds_def)
qed

lemma store_in_row_frame:
  assumes "a \<notin> region hash (5 * HASH512_SIZE)" and "i < 5" and "length d \<le> 64"
  shows "store m (hash_row hash i) d a = m a"
proof (rule store_frame)
  have "region (hash_row hash i) (length d) \<subseteq> region (hash_row hash i) HASH512_SIZE"
    using assms(3) by (intro region_mono) (simp add: HASH512_SIZE_def)
  then show "a \<notin> region (hash_row hash i) (length d)"
    using assms(1) row_in_frame [OF assms(2), of a hash] by blast
qed

lemma HashX11_frame_fitting:
  assumes "\<And>bs. length (sph_digest blake bs) \<le> 64"
    and "\<And>bs. length (sph_digest groestl bs) \<le> 64"
    and "\<And>bs. length (sph_digest cubehash bs) \<le> 64"
    and "\<And>bs. length (sph_digest shavite bs) \<le> 64"
    and "\<And>bs. length (sph_digest echo bs) \<le> 64"
    and out: "a \<notin> region pResult HASH256_SIZE"
    and frame: "a \<notin> region hash (5 * HASH512_SIZE)"
  shows "snd (HashX11 blake groestl cubehash shavite echo pblank hash m pbegin pend pResult) a
    = m a"
  unfolding HashX11_unfolded Let_def snd_conv trim256_def
  by (simp add: trim256_from_frame [OF out] store_in_row_frame [OF frame] assms(1-5))

section \<open>The test doubles\<close>

lemma double_digest:
  "sph_digest (double n k) bs = map (\<lambda>b. b + k) (take n (bs @ replicate n 0))"
  by (simp add: sph_digest_def double_def)

lemma double_length: "length (sph_digest (double n k) bs) = n"
  by (simp add: double_digest min_def)

lemma pad64_length: "length (take 64 (bs @ replicate 64 (0 :: byte))) = 64"
  by (simp add: min_def)

lemma double_emits512: "emits512 (double 64 k)"
  unfolding emits512_def double_digest HASH512_SIZE_def length_map pad64_length by simp

lemma double_digest_64:
  "length d = 64 \<Longrightarrow> sph_digest (double 64 k) d = map (\<lambda>b. b + k) d"
  by (simp add: double_digest)

lemma computeDigest_doubles:
  "computeDigest (double 64 k1) (double 64 k2) (double 64 k3) (double 64 k4) (double 64 k5) bs
    = map (\<lambda>b. b + k1 + k2 + k3 + k4 + k5) (take 32 (bs @ replicate 64 0))"
proof -
  define p where "p = take 64 (bs @ replicate 64 (0 :: byte))"
  have lp: "length p = 64" unfolding p_def by (rule pad64_length)
  have d1: "sph_digest (double 64 k1) bs = map (\<lambda>b. b + k1) p"
    by (simp only: double_digest p_def)
  have "take 32 (take 64 (bs @ replicate 64 (0 :: byte))) = take 32 (bs @ replicate 64 0)"
    by (simp only: take_take) simp
  then have "take 32 p = take 32 (bs @ replicate 64 0)" by (simp only: p_def)
  then show ?thesis
    using lp by (simp add: computeDigest_def stage_digests_def Let_def d1 double_digest_64
        take_map add.assoc)
qed

lemma shifted_differs:
  assumes "j \<noteq> 0" and "xs \<noteq> []"
  shows "map (\<lambda>b. b + (k + j)) xs \<noteq> map (\<lambda>b. b + k) (xs :: byte list)"
proof
  assume eq: "map (\<lambda>b. b + (k + j)) xs = map (\<lambda>b. b + k) xs"
  obtain x ys where xs: "xs = x # ys" using assms(2) by (cases xs) auto
  from eq have "x + (k + j) = x + k" unfolding xs by simp
  then have "j = 0" by simp
  with assms(1) show False by simp
qed

lemma emits512_length: "emits512 p \<Longrightarrow> length (sph_digest p bs) = 64"
  by (simp add: emits512_def HASH512_SIZE_def)

lemma computeDigest_chain:
  "computeDigest blake groestl cubehash shavite echo bs =
     take 32 (sph_digest echo (sph_digest shavite (sph_digest cubehash
       (sph_digest groestl (sph_digest blake bs)))))"
  by (simp add: computeDigest_def stage_digests_def Let_def)

lemma shifted_half_differs:
  assumes "j \<noteq> 0" and "length d = 64"
  shows "take 32 (map (\<lambda>b. b + k) (map (\<lambda>b. b + j) d))
    \<noteq> take 32 (map (\<lambda>b. b + k) (d :: byte list))"
proof -
  have ne: "take 32 d \<noteq> []" using assms(2) by auto
  have l: "take 32 (map (\<lambda>b. b + k) (map (\<lambda>b. b + j) d)) = map (\<lambda>b. b + (k + j)) (take 32 d)"
    by (simp add: take_map ac_simps)
  have r: "take 32 (map (\<lambda>b. b + k) d) = map (\<lambda>b. b + k) (take 32 d)"
    by (simp add: take_map)
  show ?thesis unfolding l r using assms(1) ne by (rule shifted_differs)
qed

lemma corrupted_digest: "sph_digest (corrupted j p) bs = map (\<lambda>b. b + j) (sph_digest p bs)"
  by (simp add: sph_digest_def corrupted_def)

lemma corrupted_emits512: "emits512 p \<Longrightarrow> emits512 (corrupted j p)"
  by (simp add: emits512_def corrupted_digest)

lemma corrupted_half_differs:
  assumes "j \<noteq> 0" and "emits512 p"
  shows "take 32 (sph_digest (corrupted j p) bs) \<noteq> take 32 (sph_digest p bs)"
proof -
  have "length (sph_digest p bs) = 64" using assms(2) by (rule emits512_length)
  with assms(1) have "take 32 (map (\<lambda>b. b + 0) (map (\<lambda>b. b + j) (sph_digest p bs)))
      \<noteq> take 32 (map (\<lambda>b. b + 0) (sph_digest p bs))"
    by (rule shifted_half_differs)
  then show ?thesis by (simp add: corrupted_digest)
qed

lemma tail_swapped_digest:
  "sph_digest (tail_swapped p) bs =
     take 32 (sph_digest p bs) @ map (\<lambda>b. b + 1) (drop 32 (sph_digest p bs))"
  by (simp add: sph_digest_def tail_swapped_def)

lemma tail_swapped_emits512: "emits512 p \<Longrightarrow> emits512 (tail_swapped p)"
  by (simp add: emits512_def tail_swapped_digest HASH512_SIZE_def)

lemma tail_swapped_head: "take 32 (sph_digest (tail_swapped p) bs) = take 32 (sph_digest p bs)"
  by (cases "32 \<le> length (sph_digest p bs)") (simp_all add: tail_swapped_digest)

section \<open>A concrete run\<close>

lemma sep_example: "region (0x200 :: addr) HASH256_SIZE \<inter> region 0x7000 (5 * HASH512_SIZE) = {}"
  by (rule region_disjointI) (simp_all add: HASH256_SIZE_def HASH512_SIZE_def)

lemma sep_example2: "region (0x400 :: addr) HASH256_SIZE \<inter> region 0x9000 (5 * HASH512_SIZE) = {}"
  by (rule region_disjointI) (simp_all add: HASH256_SIZE_def HASH512_SIZE_def)

lemma input_example: "input_bytes ramp 0x100 0x103 = [0, 1, 2]"
  by code_simp

lemma stages_example:
  "stage_digests (double 64 1) (double 64 2) (double 64 3) (double 64 4) (double 64 5) [0, 1, 2]
    = [[1, 2, 3] @ replicate 61 1, [3, 4, 5] @ replicate 61 3, [6, 7, 8] @ replicate 61 6,
       [10, 11, 12] @ replicate 61 10, [15, 16, 17] @ replicate 61 15]"
  by code_simp

lemma digest_empty_example:
  "computeDigest (double 64 1) (double 64 2) (double 64 3) (double 64 4) (double 64 5) []
    = replicate 32 15"
  unfolding computeDigest_doubles by code_simp

lemma short_digest_example:
  "take 32 (sph_digest (double 64 5) (sph_digest (double 64 4) (sph_digest (double 64 3)
     (sph_digest (double 64 2)
        (take 64 (sph_digest (double 8 1) [0, 1, 2]) @
         drop (length (sph_digest (double 8 1) [0, 1, 2])) (load ramp (hash_row 0x7000 0) 64))))))
   = [15, 16, 17, 15, 15, 15, 15, 15] @ map of_nat [22..<46]"
  by code_simp

section \<open>The claims\<close>

text \<open>
  C1. \<open>HashX11\<close> runs the five stages in the order BLAKE, Groestl, CubeHash, SHAvite,
  Echo: stage 1 absorbs the caller's input, every later stage absorbs the whole digest
  of the stage before it, and the five digests are left in the rows 0 to 4 of \<^verbatim>\<open>hash\<close>
  before the last row is trimmed into the caller's buffer. The four primitives whose
  digests are read back keep the adapter contract of 64 bytes.
\<close>

theorem HashX11_chains_five_stages:
  assumes "emits512 blake" "emits512 groestl" "emits512 cubehash" "emits512 shavite"
  shows "HashX11 blake groestl cubehash shavite echo pblank hash m pbegin pend pResult =
     (let d1 = sph_digest blake (input_bytes m pbegin pend);
          d2 = sph_digest groestl d1;
          d3 = sph_digest cubehash d2;
          d4 = sph_digest shavite d3;
          d5 = sph_digest echo d4
      in (True, trim256 (hash_row hash 4) pResult (fill_rows hash 0 m [d1, d2, d3, d4, d5])))"
  unfolding Let_def HashX11_rows [OF assms] stage_digests_def by (rule refl)

theorem HashX11_chains_five_stages_witness:
  "HashX11 (double 64 1) (double 64 2) (double 64 3) (double 64 4) (double 64 5)
      0x5000 0x7000 ramp 0x100 0x103 0x200 =
     (True, trim256 (hash_row 0x7000 4) 0x200
        (fill_rows 0x7000 0 ramp
           [[1, 2, 3] @ replicate 61 1, [3, 4, 5] @ replicate 61 3, [6, 7, 8] @ replicate 61 6,
            [10, 11, 12] @ replicate 61 10, [15, 16, 17] @ replicate 61 15]))"
proof -
  note run = HashX11_chains_five_stages [OF double_emits512 double_emits512 double_emits512
      double_emits512, of 1 2 3 4 "double 64 5" "0x5000" "0x7000" ramp "0x100" "0x103" "0x200"]
  have "stage_digests (double 64 1) (double 64 2) (double 64 3) (double 64 4) (double 64 5)
      (input_bytes ramp 0x100 0x103)
    = [[1, 2, 3] @ replicate 61 1, [3, 4, 5] @ replicate 61 3, [6, 7, 8] @ replicate 61 6,
       [10, 11, 12] @ replicate 61 10, [15, 16, 17] @ replicate 61 15]"
    by (simp only: input_example stages_example)
  then show ?thesis using run by (simp only: stage_digests_def Let_def)
qed

text \<open>
  C2. The 32 bytes in the caller's buffer are the first 32 bytes of the fifth digest,
  byte \<open>i\<close> of the digest at \<open>pResult + i\<close>; another fifth primitive whose digest has
  the same first 32 bytes gives the same 32 bytes, whatever its bytes 32 to 63 are.
  The caller's buffer does not overlap the array \<^verbatim>\<open>hash\<close> of the call.
\<close>

theorem output_is_first_half_of_fifth_digest:
  assumes "emits512 blake" "emits512 groestl" "emits512 cubehash" "emits512 shavite"
    "emits512 echo"
    and "region pResult HASH256_SIZE \<inter> region hash (5 * HASH512_SIZE) = {}"
  shows
    "(\<forall>i<32.
        snd (HashX11 blake groestl cubehash shavite echo pblank hash m pbegin pend pResult)
          (pResult + of_nat i)
        = (stage_digests blake groestl cubehash shavite echo (input_bytes m pbegin pend) ! 4) ! i)
     \<and> output_bytes
          (HashX11 blake groestl cubehash shavite echo pblank hash m pbegin pend pResult) pResult
        = take 32 (stage_digests blake groestl cubehash shavite echo (input_bytes m pbegin pend) ! 4)
     \<and> (emits512 echo' \<longrightarrow>
          take 32 (sph_digest echo'
            (stage_digests blake groestl cubehash shavite echo (input_bytes m pbegin pend) ! 3))
          = take 32 (sph_digest echo
            (stage_digests blake groestl cubehash shavite echo (input_bytes m pbegin pend) ! 3))
          \<longrightarrow>
          output_bytes
            (HashX11 blake groestl cubehash shavite echo' pblank hash m pbegin pend pResult) pResult
          = output_bytes
            (HashX11 blake groestl cubehash shavite echo pblank hash m pbegin pend pResult) pResult)"
proof -
  define r where "r = HashX11 blake groestl cubehash shavite echo pblank hash m pbegin pend pResult"
  define ds where "ds = stage_digests blake groestl cubehash shavite echo (input_bytes m pbegin pend)"
  have out: "output_bytes r pResult = take 32 (ds ! 4)"
    unfolding r_def ds_def using assms by (simp add: HashX11_output computeDigest_def)
  have len: "length (ds ! 4) = 64"
    using assms(5) by (simp add: ds_def stage_digests_def Let_def emits512_def HASH512_SIZE_def)
  have bytes: "snd r (pResult + of_nat i) = (ds ! 4) ! i" if "i < 32" for i
  proof -
    have "load (snd r) pResult 32 ! i = snd r (pResult + of_nat i)"
      using that by (rule load_nth)
    moreover have "take 32 (ds ! 4) ! i = (ds ! 4) ! i" using that by simp
    ultimately show ?thesis using out by (simp add: output_bytes_def HASH256_SIZE_def)
  qed
  have other: "output_bytes
      (HashX11 blake groestl cubehash shavite echo' pblank hash m pbegin pend pResult) pResult
      = output_bytes r pResult"
    if e: "emits512 echo'" and same: "take 32 (sph_digest echo' (ds ! 3)) = take 32 (sph_digest echo (ds ! 3))"
  proof -
    have "output_bytes
        (HashX11 blake groestl cubehash shavite echo' pblank hash m pbegin pend pResult) pResult
        = computeDigest blake groestl cubehash shavite echo' (input_bytes m pbegin pend)"
      using assms(1-4) e assms(6) by (rule HashX11_output)
    also have "\<dots> = take 32 (sph_digest echo' (ds ! 3))"
      by (simp add: computeDigest_def stage_digests_def Let_def ds_def)
    also have "\<dots> = take 32 (ds ! 4)"
      unfolding same by (simp add: stage_digests_def Let_def ds_def)
    finally show ?thesis using out by simp
  qed
  show ?thesis using out bytes other unfolding r_def ds_def by blast
qed

theorem output_is_first_half_of_fifth_digest_witness:
  "output_bytes
     (HashX11 (double 64 1) (double 64 2) (double 64 3) (double 64 4) (double 64 5)
        0x5000 0x7000 ramp 0x100 0x103 0x200) 0x200
     = [15, 16, 17] @ replicate 29 15
   \<and> snd (HashX11 (double 64 1) (double 64 2) (double 64 3) (double 64 4) (double 64 5)
        0x5000 0x7000 ramp 0x100 0x103 0x200) (0x200 + 2) = 17
   \<and> sph_digest (tail_swapped (double 64 5)) ([10, 11, 12] @ replicate 61 10)
       \<noteq> sph_digest (double 64 5) ([10, 11, 12] @ replicate 61 10)
   \<and> output_bytes
     (HashX11 (double 64 1) (double 64 2) (double 64 3) (double 64 4) (tail_swapped (double 64 5))
        0x5000 0x7000 ramp 0x100 0x103 0x200) 0x200
     = [15, 16, 17] @ replicate 29 15"
proof -
  note run = output_is_first_half_of_fifth_digest [OF double_emits512 [of 1]
      double_emits512 [of 2] double_emits512 [of 3] double_emits512 [of 4]
      double_emits512 [of 5] sep_example,
      where echo' = "tail_swapped (double 64 5)" and pblank = "0x5000" and m = ramp
        and pbegin = "0x100" and pend = "0x103",
      unfolded input_example stages_example]
  have d5: "[[1, 2, 3] @ replicate 61 1, [3, 4, 5] @ replicate 61 3, [6, 7, 8] @ replicate 61 6,
       [10, 11, 12] @ replicate 61 10, [15, 16, 17] @ replicate 61 (15 :: byte)] ! 4
      = [15, 16, 17] @ replicate 61 15"
    and d4: "[[1, 2, 3] @ replicate 61 1, [3, 4, 5] @ replicate 61 3, [6, 7, 8] @ replicate 61 6,
       [10, 11, 12] @ replicate 61 10, [15, 16, 17] @ replicate 61 (15 :: byte)] ! 3
      = [10, 11, 12] @ replicate 61 10"
    by simp_all
  have t: "take 32 ([15, 16, 17] @ replicate 61 (15 :: byte)) = [15, 16, 17] @ replicate 29 15"
    by code_simp
  have n: "([15, 16, 17] @ replicate 61 (15 :: byte)) ! 2 = 17" by simp
  have ne: "sph_digest (tail_swapped (double 64 5)) ([10, 11, 12] @ replicate 61 10)
       \<noteq> sph_digest (double 64 5) ([10, 11, 12] @ replicate 61 10)"
    by code_simp
  have out: "output_bytes
     (HashX11 (double 64 1) (double 64 2) (double 64 3) (double 64 4) (double 64 5)
        0x5000 0x7000 ramp 0x100 0x103 0x200) 0x200
     = [15, 16, 17] @ replicate 29 15"
    using run t by (simp only: d5)
  have "(2 :: nat) < 32" by simp
  with run have "snd (HashX11 (double 64 1) (double 64 2) (double 64 3) (double 64 4) (double 64 5)
        0x5000 0x7000 ramp 0x100 0x103 0x200) (0x200 + of_nat 2)
      = ([15, 16, 17] @ replicate 61 (15 :: byte)) ! 2"
    unfolding d5 by blast
  then have byte2: "snd (HashX11 (double 64 1) (double 64 2) (double 64 3) (double 64 4)
        (double 64 5) 0x5000 0x7000 ramp 0x100 0x103 0x200) (0x200 + 2) = 17"
    by (simp only: n of_nat_numeral)
  have "emits512 (tail_swapped (double 64 5))"
    using double_emits512 by (rule tail_swapped_emits512)
  moreover have "take 32 (sph_digest (tail_swapped (double 64 5)) ([10, 11, 12] @ replicate 61 10))
      = take 32 (sph_digest (double 64 5) ([10, 11, 12] @ replicate 61 10))"
    by (rule tail_swapped_head)
  ultimately have "output_bytes
     (HashX11 (double 64 1) (double 64 2) (double 64 3) (double 64 4) (tail_swapped (double 64 5))
        0x5000 0x7000 ramp 0x100 0x103 0x200) 0x200
     = output_bytes
     (HashX11 (double 64 1) (double 64 2) (double 64 3) (double 64 4) (double 64 5)
        0x5000 0x7000 ramp 0x100 0x103 0x200) 0x200"
    using run unfolding d4 by blast
  then show ?thesis using out byte2 ne by simp
qed

text \<open>
  C3. When \<open>pbegin = pend\<close>, the data pointer handed to the first primitive is the
  address of \<^verbatim>\<open>pblank\<close> and not \<open>pbegin\<close>, the length handed to it is 0, so that it
  absorbs no byte at all; the call returns \<open>true\<close> and, for primitives with 64-byte
  digests and an output buffer outside the frame, leaves the digest of the empty byte
  string in the caller's buffer.
\<close>

theorem empty_input_uses_pblank_with_length_0:
  assumes "pbegin = pend"
  shows "blake_data pblank pbegin pend = pblank
     \<and> blake_len pbegin pend = 0
     \<and> sph_absorb blake ctx m (blake_data pblank pbegin pend) (blake_len pbegin pend)
         = sph_update blake ctx []
     \<and> fst (HashX11 blake groestl cubehash shavite echo pblank hash m pbegin pend pResult)
     \<and> (emits512 blake \<and> emits512 groestl \<and> emits512 cubehash \<and> emits512 shavite
          \<and> emits512 echo
          \<and> region pResult HASH256_SIZE \<inter> region hash (5 * HASH512_SIZE) = {}
         \<longrightarrow> output_bytes
               (HashX11 blake groestl cubehash shavite echo pblank hash m pbegin pend pResult)
               pResult
             = computeDigest blake groestl cubehash shavite echo [])"
proof -
  have "input_bytes m pbegin pend = []" using assms by (simp add: input_bytes_def)
  then show ?thesis
    using assms by (simp add: blake_data_def blake_len_def sph_absorb_def HashX11_true
        HashX11_output)
qed

theorem empty_input_uses_pblank_with_length_0_witness:
  "blake_data 0x5000 0x100 0x100 = 0x5000
   \<and> blake_len 0x100 0x100 = 0
   \<and> sph_absorb (double 64 1) [] ramp (blake_data 0x5000 0x100 0x100) (blake_len 0x100 0x100) = []
   \<and> HashX11 (double 64 1) (double 64 2) (double 64 3) (double 64 4) (double 64 5)
        0x5000 0x7000 ramp 0x100 0x100 0x200
      = (True, snd (HashX11 (double 64 1) (double 64 2) (double 64 3) (double 64 4) (double 64 5)
        0x5000 0x7000 ramp 0x100 0x100 0x200))
   \<and> output_bytes
       (HashX11 (double 64 1) (double 64 2) (double 64 3) (double 64 4) (double 64 5)
          0x5000 0x7000 ramp 0x100 0x100 0x200) 0x200
     = replicate 32 15"
proof -
  have same: "(0x100 :: addr) = 0x100" by (rule refl)
  note run = empty_input_uses_pblank_with_length_0 [OF same,
      where pblank = "0x5000" and blake = "double 64 1" and groestl = "double 64 2"
        and cubehash = "double 64 3" and shavite = "double 64 4" and echo = "double 64 5"
        and ctx = "[]" and m = ramp and hash = "0x7000" and pResult = "0x200"]
  have upd: "sph_update (double 64 1) [] [] = []" by (simp add: double_def)
  have c1: "blake_data 0x5000 0x100 0x100 = 0x5000" and c2: "blake_len 0x100 0x100 = 0"
    and c3: "sph_absorb (double 64 1) [] ramp (blake_data 0x5000 0x100 0x100)
      (blake_len 0x100 0x100) = sph_update (double 64 1) [] []"
    and c4: "fst (HashX11 (double 64 1) (double 64 2) (double 64 3) (double 64 4) (double 64 5)
        0x5000 0x7000 ramp 0x100 0x100 0x200)"
    using run by blast+
  have "output_bytes
       (HashX11 (double 64 1) (double 64 2) (double 64 3) (double 64 4) (double 64 5)
          0x5000 0x7000 ramp 0x100 0x100 0x200) 0x200
     = computeDigest (double 64 1) (double 64 2) (double 64 3) (double 64 4) (double 64 5) []"
    using run double_emits512 sep_example by blast
  then have c5: "output_bytes
       (HashX11 (double 64 1) (double 64 2) (double 64 3) (double 64 4) (double 64 5)
          0x5000 0x7000 ramp 0x100 0x100 0x200) 0x200 = replicate 32 15"
    by (simp only: digest_empty_example)
  have c4': "HashX11 (double 64 1) (double 64 2) (double 64 3) (double 64 4) (double 64 5)
        0x5000 0x7000 ramp 0x100 0x100 0x200
      = (True, snd (HashX11 (double 64 1) (double 64 2) (double 64 3) (double 64 4) (double 64 5)
        0x5000 0x7000 ramp 0x100 0x100 0x200))"
    using c4 by (simp add: prod_eq_iff)
  show ?thesis
    by (intro conjI) (fact c1, fact c2, simp only: c3 upd, fact c4', fact c5)
qed

text \<open>
  C4. Two calls on the same input bytes give the same 32 output bytes, wherever the
  input, the output buffer, the frame and \<^verbatim>\<open>pblank\<close> lie in the two calls and whatever
  else the two memories hold, the uninitialised rows of \<^verbatim>\<open>hash\<close> included. The primitives
  are functions with 64-byte digests, and in each call the output buffer lies outside
  the frame.
\<close>

theorem HashX11_deterministic:
  assumes "emits512 blake" "emits512 groestl" "emits512 cubehash" "emits512 shavite"
    "emits512 echo"
    and "region pResultA HASH256_SIZE \<inter> region hashA (5 * HASH512_SIZE) = {}"
    and "region pResultB HASH256_SIZE \<inter> region hashB (5 * HASH512_SIZE) = {}"
    and "input_bytes mA pbeginA pendA = input_bytes mB pbeginB pendB"
  shows "fst (HashX11 blake groestl cubehash shavite echo pblankA hashA mA pbeginA pendA pResultA)
       = fst (HashX11 blake groestl cubehash shavite echo pblankB hashB mB pbeginB pendB pResultB)
     \<and> output_bytes
         (HashX11 blake groestl cubehash shavite echo pblankA hashA mA pbeginA pendA pResultA)
         pResultA
       = output_bytes
         (HashX11 blake groestl cubehash shavite echo pblankB hashB mB pbeginB pendB pResultB)
         pResultB"
proof -
  have "output_bytes
      (HashX11 blake groestl cubehash shavite echo pblankA hashA mA pbeginA pendA pResultA)
      pResultA
    = computeDigest blake groestl cubehash shavite echo (input_bytes mA pbeginA pendA)"
    using assms(1-5) assms(6) by (rule HashX11_output)
  moreover have "output_bytes
      (HashX11 blake groestl cubehash shavite echo pblankB hashB mB pbeginB pendB pResultB)
      pResultB
    = computeDigest blake groestl cubehash shavite echo (input_bytes mB pbeginB pendB)"
    using assms(1-5) assms(7) by (rule HashX11_output)
  ultimately show ?thesis using assms(8) by (simp add: HashX11_true)
qed

theorem HashX11_deterministic_witness:
  "output_bytes
     (HashX11 (double 64 1) (double 64 2) (double 64 3) (double 64 4) (double 64 5)
        0x5000 0x7000 ramp 0x100 0x103 0x200) 0x200
   = output_bytes
     (HashX11 (double 64 1) (double 64 2) (double 64 3) (double 64 4) (double 64 5)
        0x6000 0x9000 (ramp(0x9000 := 77, 0x6000 := 5)) 0x300 0x303 0x400) 0x400"
proof -
  have "input_bytes (ramp(0x9000 := 77, 0x6000 := 5)) 0x300 0x303 = [0, 1, 2]"
    by code_simp
  then have same: "input_bytes ramp 0x100 0x103
      = input_bytes (ramp(0x9000 := 77, 0x6000 := 5)) 0x300 0x303"
    by (simp only: input_example)
  show ?thesis
    using HashX11_deterministic [OF double_emits512 [of 1] double_emits512 [of 2]
      double_emits512 [of 3] double_emits512 [of 4] double_emits512 [of 5]
      sep_example sep_example2 same, where pblankA = "0x5000" and pblankB = "0x6000"]
    by (rule conjunct2)
qed

text \<open>
  C5. For every input, the empty one included, \<open>HashX11\<close> returns \<open>true\<close>: whatever the
  primitives, the memory and the pointers are, the returned value is \<open>True\<close>. The model
  has no other outcome, as the source has no other \<^verbatim>\<open>return\<close> and raises nothing.
\<close>

theorem HashX11_always_succeeds:
  "fst (HashX11 blake groestl cubehash shavite echo pblank hash m pbegin pend pResult) = True"
  by (rule HashX11_true)

text \<open>
  C6. Whatever the length of the input is, each of the five stage digests has 64
  bytes and fills its row of \<^verbatim>\<open>hash\<close>, where the next stage reads exactly these 64 bytes,
  and the output has 32 bytes, the first half of the fifth digest. Each primitive writes
  exactly 64 bytes: that is the adapter contract, which the absent primitives are taken
  to keep. The output buffer lies outside the frame.
\<close>

theorem stage_digests_have_64_bytes_output_32:
  assumes "emits512 blake" "emits512 groestl" "emits512 cubehash" "emits512 shavite"
    "emits512 echo"
    and "region pResult HASH256_SIZE \<inter> region hash (5 * HASH512_SIZE) = {}"
  shows "length (input_bytes m pbegin pend) = unat (pend - pbegin)
     \<and> length (stage_digests blake groestl cubehash shavite echo (input_bytes m pbegin pend)) = 5
     \<and> (\<forall>i<5.
          length (stage_digests blake groestl cubehash shavite echo
                    (input_bytes m pbegin pend) ! i) = 64
          \<and> load (snd (HashX11 blake groestl cubehash shavite echo
                           pblank hash m pbegin pend pResult)) (hash_row hash i) 64
              = stage_digests blake groestl cubehash shavite echo (input_bytes m pbegin pend) ! i)
     \<and> length (output_bytes
          (HashX11 blake groestl cubehash shavite echo pblank hash m pbegin pend pResult)
          pResult) = 32
     \<and> output_bytes
          (HashX11 blake groestl cubehash shavite echo pblank hash m pbegin pend pResult) pResult
        = take 32 (stage_digests blake groestl cubehash shavite echo
                     (input_bytes m pbegin pend) ! 4)"
proof -
  define ds where "ds = stage_digests blake groestl cubehash shavite echo (input_bytes m pbegin pend)"
  have five: "length ds = 5" by (simp add: ds_def stage_digests_length)
  have all64: "\<forall>d\<in>set ds. length d = HASH512_SIZE"
    unfolding ds_def using assms(1-5) by (rule stage_digests_emit)
  have len: "length (ds ! i) = 64" if "i < 5" for i
    using all64 that five by (simp add: HASH512_SIZE_def)
  have row: "load (snd (HashX11 blake groestl cubehash shavite echo
        pblank hash m pbegin pend pResult)) (hash_row hash i) 64 = ds ! i" if "i < 5" for i
    unfolding ds_def using assms that by (rule HashX11_row)
  have out: "output_bytes
      (HashX11 blake groestl cubehash shavite echo pblank hash m pbegin pend pResult) pResult
      = take 32 (ds ! 4)"
    unfolding ds_def using assms by (simp add: HashX11_output computeDigest_def)
  have "length (input_bytes m pbegin pend) = unat (pend - pbegin)"
    by (simp add: input_bytes_def length_load)
  moreover have "length (output_bytes
      (HashX11 blake groestl cubehash shavite echo pblank hash m pbegin pend pResult)
      pResult) = 32"
    by (simp add: output_bytes_def length_load HASH256_SIZE_def)
  ultimately show ?thesis
    using five len row out unfolding ds_def by blast
qed

theorem stage_digests_have_64_bytes_output_32_witness:
  "length (input_bytes ramp 0x100 0x103) = 3
   \<and> load (snd (HashX11 (double 64 1) (double 64 2) (double 64 3) (double 64 4) (double 64 5)
        0x5000 0x7000 ramp 0x100 0x103 0x200)) (hash_row 0x7000 2) 64
      = [6, 7, 8] @ replicate 61 6
   \<and> length ([6, 7, 8] @ replicate 61 (6 :: byte)) = 64
   \<and> length (output_bytes
        (HashX11 (double 64 1) (double 64 2) (double 64 3) (double 64 4) (double 64 5)
          0x5000 0x7000 ramp 0x100 0x103 0x200) 0x200) = 32"
proof -
  note run = stage_digests_have_64_bytes_output_32 [OF double_emits512 [of 1]
      double_emits512 [of 2] double_emits512 [of 3] double_emits512 [of 4]
      double_emits512 [of 5] sep_example,
      where pblank = "0x5000" and m = ramp and pbegin = "0x100" and pend = "0x103",
      unfolded input_example stages_example]
  have two: "(2 :: nat) < 5" by simp
  have d3: "[[1, 2, 3] @ replicate 61 1, [3, 4, 5] @ replicate 61 3, [6, 7, 8] @ replicate 61 6,
       [10, 11, 12] @ replicate 61 10, [15, 16, 17] @ replicate 61 (15 :: byte)] ! 2
      = [6, 7, 8] @ replicate 61 6"
    by simp
  from run have rows: "\<forall>i<5.
      length ([[1, 2, 3] @ replicate 61 1, [3, 4, 5] @ replicate 61 3, [6, 7, 8] @ replicate 61 6,
        [10, 11, 12] @ replicate 61 10, [15, 16, 17] @ replicate 61 (15 :: byte)] ! i) = 64
      \<and> load (snd (HashX11 (double 64 1) (double 64 2) (double 64 3) (double 64 4) (double 64 5)
          0x5000 0x7000 ramp 0x100 0x103 0x200)) (hash_row 0x7000 i) 64
        = [[1, 2, 3] @ replicate 61 1, [3, 4, 5] @ replicate 61 3, [6, 7, 8] @ replicate 61 6,
        [10, 11, 12] @ replicate 61 10, [15, 16, 17] @ replicate 61 (15 :: byte)] ! i"
    by (elim conjE)
  from run have outlen: "length (output_bytes
        (HashX11 (double 64 1) (double 64 2) (double 64 3) (double 64 4) (double 64 5)
          0x5000 0x7000 ramp 0x100 0x103 0x200) 0x200) = 32"
    by (elim conjE)
  have row: "length ([6, 7, 8] @ replicate 61 (6 :: byte)) = 64
      \<and> load (snd (HashX11 (double 64 1) (double 64 2) (double 64 3) (double 64 4) (double 64 5)
        0x5000 0x7000 ramp 0x100 0x103 0x200)) (hash_row 0x7000 2) 64
      = [6, 7, 8] @ replicate 61 6"
    using rows [rule_format, OF two] unfolding d3 .
  have inlen: "length (input_bytes ramp 0x100 0x103) = 3"
    by (simp only: input_example) simp
  show ?thesis
    using inlen row outlen by (intro conjI) (elim conjE, assumption)+
qed

text \<open>
  C7. The source has no assertion and no check of a digest's length; the claim fails
  on it. Here the first primitive delivers 8 bytes instead of 64: the call returns
  \<open>true\<close> all the same, and the output is computed from these 8 bytes followed by the 56
  bytes that the uninitialised row \<^verbatim>\<open>hash[0]\<close> held, which the second stage absorbs with
  them (the bytes 22, 23, ... of the output come from the bytes 8, 9, ... of the memory
  under the row).
\<close>

theorem short_digest_is_padded_silently:
  "length (sph_digest (double 8 1) (input_bytes ramp 0x100 0x103)) = 8
   \<and> fst (HashX11 (double 8 1) (double 64 2) (double 64 3) (double 64 4) (double 64 5)
        0x5000 0x7000 ramp 0x100 0x103 0x200) = True
   \<and> output_bytes
       (HashX11 (double 8 1) (double 64 2) (double 64 3) (double 64 4) (double 64 5)
          0x5000 0x7000 ramp 0x100 0x103 0x200) 0x200
     = [15, 16, 17, 15, 15, 15, 15, 15] @ map of_nat [22..<46]"
proof -
  have "length (sph_digest (double 8 1) (input_bytes ramp 0x100 0x103)) < 2 ^ 64"
    by (simp add: double_length)
  then have "output_bytes
       (HashX11 (double 8 1) (double 64 2) (double 64 3) (double 64 4) (double 64 5)
          0x5000 0x7000 ramp 0x100 0x103 0x200) 0x200
     = take 32 (sph_digest (double 64 5) (sph_digest (double 64 4) (sph_digest (double 64 3)
        (sph_digest (double 64 2)
          (take 64 (sph_digest (double 8 1) (input_bytes ramp 0x100 0x103)) @
           drop (length (sph_digest (double 8 1) (input_bytes ramp 0x100 0x103)))
             (load ramp (hash_row 0x7000 0) 64))))))"
    using double_emits512 [of 2] double_emits512 [of 3] double_emits512 [of 4]
      double_emits512 [of 5] sep_example
    by (intro HashX11_general)
  then have "output_bytes
       (HashX11 (double 8 1) (double 64 2) (double 64 3) (double 64 4) (double 64 5)
          0x5000 0x7000 ramp 0x100 0x103 0x200) 0x200
     = [15, 16, 17, 15, 15, 15, 15, 15] @ map of_nat [22..<46]"
    by (simp only: input_example short_digest_example)
  then show ?thesis
    by (simp only: double_length HashX11_true simp_thms)
qed

text \<open>
  C7, as the source has it. \<open>HashX11\<close> performs no check of a digest's length. For
  primitives whose digests have at most 64 bytes, so that each fits its row of \<^verbatim>\<open>hash\<close>,
  the call returns \<open>true\<close>, writes nothing outside \<^verbatim>\<open>hash\<close> and the output buffer, and
  every later stage absorbs exactly the 64 bytes it finds in the row of the stage before
  it: the digest, followed, when it is shorter than 64 bytes, by what the row held
  before the digest was written there.
\<close>

theorem digest_length_is_never_checked:
  assumes "\<And>bs. length (sph_digest blake bs) \<le> 64"
    and "\<And>bs. length (sph_digest groestl bs) \<le> 64"
    and "\<And>bs. length (sph_digest cubehash bs) \<le> 64"
    and "\<And>bs. length (sph_digest shavite bs) \<le> 64"
    and "\<And>bs. length (sph_digest echo bs) \<le> 64"
  shows "HashX11 blake groestl cubehash shavite echo pblank hash m pbegin pend pResult =
     (let d1 = sph_digest blake (input_bytes m pbegin pend);
          m1 = store m (hash_row hash 0) d1;
          d2 = sph_digest groestl (d1 @ drop (length d1) (load m (hash_row hash 0) 64));
          m2 = store m1 (hash_row hash 1) d2;
          d3 = sph_digest cubehash (d2 @ drop (length d2) (load m1 (hash_row hash 1) 64));
          m3 = store m2 (hash_row hash 2) d3;
          d4 = sph_digest shavite (d3 @ drop (length d3) (load m2 (hash_row hash 2) 64));
          m4 = store m3 (hash_row hash 3) d4;
          d5 = sph_digest echo (d4 @ drop (length d4) (load m3 (hash_row hash 3) 64));
          m5 = store m4 (hash_row hash 4) d5
      in (True, trim256 (hash_row hash 4) pResult m5))
     \<and> (\<forall>a. a \<notin> region pResult HASH256_SIZE \<union> region hash (5 * HASH512_SIZE) \<longrightarrow>
          snd (HashX11 blake groestl cubehash shavite echo pblank hash m pbegin pend pResult) a
          = m a)"
proof -
  have lt: "length (sph_digest blake bs) < 2 ^ 64" "length (sph_digest groestl bs) < 2 ^ 64"
    "length (sph_digest cubehash bs) < 2 ^ 64" "length (sph_digest shavite bs) < 2 ^ 64" for bs
    using assms(1) [of bs] assms(2) [of bs] assms(3) [of bs] assms(4) [of bs] by simp_all
  have chain: "HashX11 blake groestl cubehash shavite echo pblank hash m pbegin pend pResult =
     (let d1 = sph_digest blake (input_bytes m pbegin pend);
          m1 = store m (hash_row hash 0) d1;
          d2 = sph_digest groestl (d1 @ drop (length d1) (load m (hash_row hash 0) 64));
          m2 = store m1 (hash_row hash 1) d2;
          d3 = sph_digest cubehash (d2 @ drop (length d2) (load m1 (hash_row hash 1) 64));
          m3 = store m2 (hash_row hash 2) d3;
          d4 = sph_digest shavite (d3 @ drop (length d3) (load m2 (hash_row hash 2) 64));
          m4 = store m3 (hash_row hash 3) d4;
          d5 = sph_digest echo (d4 @ drop (length d4) (load m3 (hash_row hash 3) 64));
          m5 = store m4 (hash_row hash 4) d5
      in (True, trim256 (hash_row hash 4) pResult m5))"
    unfolding HashX11_unfolded Let_def using lt assms(1-4) by (simp add: load_store)
  have "snd (HashX11 blake groestl cubehash shavite echo pblank hash m pbegin pend pResult) a
      = m a"
    if "a \<notin> region pResult HASH256_SIZE \<union> region hash (5 * HASH512_SIZE)" for a
    using assms that by (intro HashX11_frame_fitting) auto
  with chain show ?thesis by blast
qed

theorem digest_length_is_never_checked_witness:
  "length (sph_digest (double 8 1) [0, 1, 2]) = 8
   \<and> HashX11 (double 8 1) (double 64 2) (double 64 3) (double 64 4) (double 64 5)
      0x5000 0x7000 ramp 0x100 0x103 0x200 =
     (let d1 = sph_digest (double 8 1) [0, 1, 2];
          m1 = store ramp (hash_row 0x7000 0) d1;
          d2 = sph_digest (double 64 2) (d1 @ drop (length d1) (load ramp (hash_row 0x7000 0) 64));
          m2 = store m1 (hash_row 0x7000 1) d2;
          d3 = sph_digest (double 64 3) (d2 @ drop (length d2) (load m1 (hash_row 0x7000 1) 64));
          m3 = store m2 (hash_row 0x7000 2) d3;
          d4 = sph_digest (double 64 4) (d3 @ drop (length d3) (load m2 (hash_row 0x7000 2) 64));
          m4 = store m3 (hash_row 0x7000 3) d4;
          d5 = sph_digest (double 64 5) (d4 @ drop (length d4) (load m3 (hash_row 0x7000 3) 64));
          m5 = store m4 (hash_row 0x7000 4) d5
      in (True, trim256 (hash_row 0x7000 4) 0x200 m5))
   \<and> snd (HashX11 (double 8 1) (double 64 2) (double 64 3) (double 64 4) (double 64 5)
      0x5000 0x7000 ramp 0x100 0x103 0x200) 0x5000 = ramp 0x5000"
proof -
  have bound: "length (sph_digest (double n k) bs) \<le> 64" if "n \<le> 64" for n k bs
    using that by (simp only: double_length)
  have b8: "length (sph_digest (double 8 1) bs) \<le> 64" for bs by (rule bound) simp
  have b64: "length (sph_digest (double 64 k) bs) \<le> 64" for k bs by (rule bound) simp
  note run = digest_length_is_never_checked [of "double 8 1" "double 64 2" "double 64 3"
      "double 64 4" "double 64 5" "0x5000" "0x7000" ramp "0x100" "0x103" "0x200",
      OF b8 b64 b64 b64 b64, unfolded input_example]
  have a: "(0x5000 :: addr) \<notin> region 0x200 HASH256_SIZE \<union> region 0x7000 (5 * HASH512_SIZE)"
    by (simp add: region_def HASH256_SIZE_def HASH512_SIZE_def)
  have len: "length (sph_digest (double 8 1) [0, 1, 2]) = 8" by (rule double_length)
  have frame: "snd (HashX11 (double 8 1) (double 64 2) (double 64 3) (double 64 4) (double 64 5)
      0x5000 0x7000 ramp 0x100 0x103 0x200) 0x5000 = ramp 0x5000"
    using run [THEN conjunct2, rule_format, OF a] .
  show ?thesis
    by (intro conjI) (fact len, fact run [THEN conjunct1], fact frame)
qed

text \<open>
  C8. The byte stored in \<^verbatim>\<open>pblank\<close> has no influence on the output: overwriting it with
  any value \<open>b\<close> before the call leaves the 32 output bytes as they are, for the empty
  input and for every other. Here \<^verbatim>\<open>pblank\<close> is not one of the caller's input bytes, the
  primitives have 64-byte digests and the output buffer lies outside the frame.
\<close>

theorem pblank_contents_irrelevant:
  assumes "emits512 blake" "emits512 groestl" "emits512 cubehash" "emits512 shavite"
    "emits512 echo"
    and "region pResult HASH256_SIZE \<inter> region hash (5 * HASH512_SIZE) = {}"
    and "pblank \<notin> region pbegin (unat (pend - pbegin))"
  shows "output_bytes
      (HashX11 blake groestl cubehash shavite echo pblank hash (m(pblank := b)) pbegin pend pResult)
      pResult
    = output_bytes
      (HashX11 blake groestl cubehash shavite echo pblank hash m pbegin pend pResult) pResult"
proof -
  have "load (m(pblank := b)) pbegin (unat (pend - pbegin)) = load m pbegin (unat (pend - pbegin))"
    using assms(7) by (intro load_cong) auto
  then have "input_bytes (m(pblank := b)) pbegin pend = input_bytes m pbegin pend"
    by (simp only: input_bytes_def)
  then show ?thesis
    using assms(1-6) by (simp add: HashX11_output)
qed

theorem pblank_contents_irrelevant_witness:
  "output_bytes
      (HashX11 (double 64 1) (double 64 2) (double 64 3) (double 64 4) (double 64 5)
        0x5000 0x7000 (ramp(0x5000 := 0xAB)) 0x100 0x100 0x200) 0x200
    = output_bytes
      (HashX11 (double 64 1) (double 64 2) (double 64 3) (double 64 4) (double 64 5)
        0x5000 0x7000 ramp 0x100 0x100 0x200) 0x200
   \<and> output_bytes
      (HashX11 (double 64 1) (double 64 2) (double 64 3) (double 64 4) (double 64 5)
        0x5000 0x7000 (ramp(0x5000 := 0xAB)) 0x100 0x103 0x200) 0x200
    = output_bytes
      (HashX11 (double 64 1) (double 64 2) (double 64 3) (double 64 4) (double 64 5)
        0x5000 0x7000 ramp 0x100 0x103 0x200) 0x200"
proof -
  have empty: "(0x5000 :: addr) \<notin> region 0x100 (unat (0x100 - 0x100 :: addr))"
    by (simp add: region_def)
  have three: "(0x5000 :: addr) \<notin> region 0x100 (unat (0x103 - 0x100 :: addr))"
    by (simp add: region_def)
  show ?thesis
    using pblank_contents_irrelevant [OF double_emits512 [of 1] double_emits512 [of 2]
        double_emits512 [of 3] double_emits512 [of 4] double_emits512 [of 5]
        sep_example empty, of ramp "0xAB"]
      pblank_contents_irrelevant [OF double_emits512 [of 1] double_emits512 [of 2]
        double_emits512 [of 3] double_emits512 [of 4] double_emits512 [of 5]
        sep_example three, of ramp "0xAB"]
    by (rule conjI)
qed

text \<open>
  C9. No stage is left out of the chain: for each of the five stages there is a
  replacement of that stage's primitive alone that changes the final 32 bytes, and it
  does so for every input. The replacement is the stage's own primitive corrupted by
  adding \<open>j \<noteq> 0\<close> to every byte of its digest. The replaced primitive and the stages
  before it are any primitives with 64-byte digests; the stages after it are test
  doubles that hand their 64 input bytes on with a constant added, so that for the last
  stage all five primitives are arbitrary. The output buffer lies outside the frame.
\<close>

theorem every_stage_reaches_the_output:
  assumes "emits512 blake" "emits512 groestl" "emits512 cubehash" "emits512 shavite"
    "emits512 echo"
    and "region pResult HASH256_SIZE \<inter> region hash (5 * HASH512_SIZE) = {}"
    and "j \<noteq> 0"
  shows
    "output_bytes
       (HashX11 (corrupted j blake) (double 64 k2) (double 64 k3) (double 64 k4) (double 64 k5)
          pblank hash m pbegin pend pResult) pResult
     \<noteq> output_bytes
       (HashX11 blake (double 64 k2) (double 64 k3) (double 64 k4) (double 64 k5)
          pblank hash m pbegin pend pResult) pResult
     \<and> output_bytes
       (HashX11 blake (corrupted j groestl) (double 64 k3) (double 64 k4) (double 64 k5)
          pblank hash m pbegin pend pResult) pResult
     \<noteq> output_bytes
       (HashX11 blake groestl (double 64 k3) (double 64 k4) (double 64 k5)
          pblank hash m pbegin pend pResult) pResult
     \<and> output_bytes
       (HashX11 blake groestl (corrupted j cubehash) (double 64 k4) (double 64 k5)
          pblank hash m pbegin pend pResult) pResult
     \<noteq> output_bytes
       (HashX11 blake groestl cubehash (double 64 k4) (double 64 k5)
          pblank hash m pbegin pend pResult) pResult
     \<and> output_bytes
       (HashX11 blake groestl cubehash (corrupted j shavite) (double 64 k5)
          pblank hash m pbegin pend pResult) pResult
     \<noteq> output_bytes
       (HashX11 blake groestl cubehash shavite (double 64 k5)
          pblank hash m pbegin pend pResult) pResult
     \<and> output_bytes
       (HashX11 blake groestl cubehash shavite (corrupted j echo)
          pblank hash m pbegin pend pResult) pResult
     \<noteq> output_bytes
       (HashX11 blake groestl cubehash shavite echo
          pblank hash m pbegin pend pResult) pResult"
proof -
  note sep = assms(6)
  note D = double_emits512
  note C = corrupted_emits512
  note L = emits512_length
  define x where "x = input_bytes m pbegin pend"
  have s1: "take 32 (map (\<lambda>b. b + k5) (map (\<lambda>b. b + k4) (map (\<lambda>b. b + k3)
        (map (\<lambda>b. b + k2) (map (\<lambda>b. b + j) d)))))
      \<noteq> take 32 (map (\<lambda>b. b + k5) (map (\<lambda>b. b + k4) (map (\<lambda>b. b + k3)
        (map (\<lambda>b. b + k2) d))))" if "length d = 64" for d :: "byte list"
  proof -
    have "take 32 (map (\<lambda>b. b + (k2 + k3 + k4 + k5)) (map (\<lambda>b. b + j) d))
        \<noteq> take 32 (map (\<lambda>b. b + (k2 + k3 + k4 + k5)) d)"
      using assms(7) that by (rule shifted_half_differs)
    then show ?thesis by (simp add: add.assoc comp_def)
  qed
  have s2: "take 32 (map (\<lambda>b. b + k5) (map (\<lambda>b. b + k4) (map (\<lambda>b. b + k3)
        (map (\<lambda>b. b + j) d))))
      \<noteq> take 32 (map (\<lambda>b. b + k5) (map (\<lambda>b. b + k4) (map (\<lambda>b. b + k3) d)))"
    if "length d = 64" for d :: "byte list"
  proof -
    have "take 32 (map (\<lambda>b. b + (k3 + k4 + k5)) (map (\<lambda>b. b + j) d))
        \<noteq> take 32 (map (\<lambda>b. b + (k3 + k4 + k5)) d)"
      using assms(7) that by (rule shifted_half_differs)
    then show ?thesis by (simp add: add.assoc comp_def)
  qed
  have s3: "take 32 (map (\<lambda>b. b + k5) (map (\<lambda>b. b + k4) (map (\<lambda>b. b + j) d)))
      \<noteq> take 32 (map (\<lambda>b. b + k5) (map (\<lambda>b. b + k4) d))"
    if "length d = 64" for d :: "byte list"
  proof -
    have "take 32 (map (\<lambda>b. b + (k4 + k5)) (map (\<lambda>b. b + j) d))
        \<noteq> take 32 (map (\<lambda>b. b + (k4 + k5)) d)"
      using assms(7) that by (rule shifted_half_differs)
    then show ?thesis by (simp add: add.assoc comp_def)
  qed
  have s4: "take 32 (map (\<lambda>b. b + k5) (map (\<lambda>b. b + j) d))
      \<noteq> take 32 (map (\<lambda>b. b + k5) d)" if "length d = 64" for d :: "byte list"
    using assms(7) that by (rule shifted_half_differs)
  have c1: "output_bytes
       (HashX11 (corrupted j blake) (double 64 k2) (double 64 k3) (double 64 k4) (double 64 k5)
          pblank hash m pbegin pend pResult) pResult
     \<noteq> output_bytes
       (HashX11 blake (double 64 k2) (double 64 k3) (double 64 k4) (double 64 k5)
          pblank hash m pbegin pend pResult) pResult"
    using s1 [OF L [OF assms(1), of x]]
    by (simp add: HashX11_output [OF C [OF assms(1)] D D D D sep]
        HashX11_output [OF assms(1) D D D D sep] computeDigest_chain corrupted_digest
        double_digest_64 L [OF assms(1)] x_def)
  have c2: "output_bytes
       (HashX11 blake (corrupted j groestl) (double 64 k3) (double 64 k4) (double 64 k5)
          pblank hash m pbegin pend pResult) pResult
     \<noteq> output_bytes
       (HashX11 blake groestl (double 64 k3) (double 64 k4) (double 64 k5)
          pblank hash m pbegin pend pResult) pResult"
    using s2 [OF L [OF assms(2), of "sph_digest blake x"]]
    by (simp add: HashX11_output [OF assms(1) C [OF assms(2)] D D D sep]
        HashX11_output [OF assms(1,2) D D D sep] computeDigest_chain corrupted_digest
        double_digest_64 L [OF assms(2)] x_def)
  have c3: "output_bytes
       (HashX11 blake groestl (corrupted j cubehash) (double 64 k4) (double 64 k5)
          pblank hash m pbegin pend pResult) pResult
     \<noteq> output_bytes
       (HashX11 blake groestl cubehash (double 64 k4) (double 64 k5)
          pblank hash m pbegin pend pResult) pResult"
    using s3 [OF L [OF assms(3), of "sph_digest groestl (sph_digest blake x)"]]
    by (simp add: HashX11_output [OF assms(1,2) C [OF assms(3)] D D sep]
        HashX11_output [OF assms(1,2,3) D D sep] computeDigest_chain corrupted_digest
        double_digest_64 L [OF assms(3)] x_def)
  have c4: "output_bytes
       (HashX11 blake groestl cubehash (corrupted j shavite) (double 64 k5)
          pblank hash m pbegin pend pResult) pResult
     \<noteq> output_bytes
       (HashX11 blake groestl cubehash shavite (double 64 k5)
          pblank hash m pbegin pend pResult) pResult"
    using s4 [OF L [OF assms(4),
          of "sph_digest cubehash (sph_digest groestl (sph_digest blake x))"]]
    by (simp add: HashX11_output [OF assms(1,2,3) C [OF assms(4)] D sep]
        HashX11_output [OF assms(1,2,3,4) D sep] computeDigest_chain corrupted_digest
        double_digest_64 L [OF assms(4)] x_def)
  have c5: "output_bytes
       (HashX11 blake groestl cubehash shavite (corrupted j echo)
          pblank hash m pbegin pend pResult) pResult
     \<noteq> output_bytes
       (HashX11 blake groestl cubehash shavite echo
          pblank hash m pbegin pend pResult) pResult"
    using corrupted_half_differs [OF assms(7) assms(5)]
    by (simp add: HashX11_output [OF assms(1,2,3,4) C [OF assms(5)] sep]
        HashX11_output [OF assms(1,2,3,4,5) sep] computeDigest_chain)
  show ?thesis by (intro conjI) (fact c1, fact c2, fact c3, fact c4, fact c5)
qed

theorem every_stage_reaches_the_output_witness:
  "output_bytes
     (HashX11 (corrupted 9 (double 64 1)) (double 64 2) (double 64 3) (double 64 4) (double 64 5)
        0x5000 0x7000 ramp 0x100 0x103 0x200) 0x200
   \<noteq> output_bytes
     (HashX11 (double 64 1) (double 64 2) (double 64 3) (double 64 4) (double 64 5)
        0x5000 0x7000 ramp 0x100 0x103 0x200) 0x200
   \<and> output_bytes
     (HashX11 (double 64 1) (double 64 2) (corrupted 9 (double 64 3)) (double 64 4) (double 64 5)
        0x5000 0x7000 ramp 0x100 0x103 0x200) 0x200
   \<noteq> output_bytes
     (HashX11 (double 64 1) (double 64 2) (double 64 3) (double 64 4) (double 64 5)
        0x5000 0x7000 ramp 0x100 0x103 0x200) 0x200
   \<and> output_bytes
     (HashX11 (double 64 1) (double 64 2) (double 64 3) (double 64 4) (corrupted 9 (double 64 5))
        0x5000 0x7000 ramp 0x100 0x103 0x200) 0x200
   \<noteq> output_bytes
     (HashX11 (double 64 1) (double 64 2) (double 64 3) (double 64 4) (double 64 5)
        0x5000 0x7000 ramp 0x100 0x103 0x200) 0x200"
proof -
  have nine: "(9 :: byte) \<noteq> 0" by simp
  note run = every_stage_reaches_the_output [OF double_emits512 [of 1] double_emits512 [of 2]
      double_emits512 [of 3] double_emits512 [of 4] double_emits512 [of 5] sep_example nine,
      where ?k2.0 = 2 and ?k3.0 = 3 and ?k4.0 = 4 and ?k5.0 = 5
        and pblank = "0x5000" and m = ramp and pbegin = "0x100" and pend = "0x103"]
  show ?thesis using run by (elim conjE) (intro conjI)
qed

text \<open>
  C10. A call changes no byte of memory outside the caller's 32-byte output buffer
  and its own array \<^verbatim>\<open>hash\<close>. In particular the static \<^verbatim>\<open>pblank\<close>, an object apart from
  both, keeps its contents; it is handed to the first primitive only as the data to
  read, and then with length 0 unless the caller's own pointer is the same address. The
  primitives write their 64-byte digests and nothing else.
\<close>

theorem HashX11_changes_only_output_and_frame:
  assumes "emits512 blake" "emits512 groestl" "emits512 cubehash" "emits512 shavite"
    "emits512 echo"
  shows "(\<forall>a. a \<notin> region pResult HASH256_SIZE \<union> region hash (5 * HASH512_SIZE) \<longrightarrow>
        snd (HashX11 blake groestl cubehash shavite echo pblank hash m pbegin pend pResult) a
        = m a)
     \<and> (pblank \<notin> region pResult HASH256_SIZE \<union> region hash (5 * HASH512_SIZE) \<longrightarrow>
        snd (HashX11 blake groestl cubehash shavite echo pblank hash m pbegin pend pResult) pblank
        = m pblank)
     \<and> (blake_data pblank pbegin pend = pblank \<longrightarrow>
        blake_len pbegin pend = 0 \<or> pbegin = pblank)"
proof -
  have "snd (HashX11 blake groestl cubehash shavite echo pblank hash m pbegin pend pResult) a
      = m a"
    if "a \<notin> region pResult HASH256_SIZE \<union> region hash (5 * HASH512_SIZE)" for a
    using assms that by (intro HashX11_frame) auto
  moreover have "blake_len pbegin pend = 0 \<or> pbegin = pblank"
    if "blake_data pblank pbegin pend = pblank"
    using that by (auto simp: blake_data_def blake_len_def split: if_splits)
  ultimately show ?thesis by blast
qed

theorem HashX11_changes_only_output_and_frame_witness:
  "snd (HashX11 (double 64 1) (double 64 2) (double 64 3) (double 64 4) (double 64 5)
      0x5000 0x7000 ramp 0x100 0x100 0x200) 0x5000 = ramp 0x5000
   \<and> snd (HashX11 (double 64 1) (double 64 2) (double 64 3) (double 64 4) (double 64 5)
      0x5000 0x7000 ramp 0x100 0x100 0x200) 0x220 = ramp 0x220
   \<and> blake_len 0x100 0x100 = 0"
proof -
  note run = HashX11_changes_only_output_and_frame [OF double_emits512 [of 1]
      double_emits512 [of 2] double_emits512 [of 3] double_emits512 [of 4]
      double_emits512 [of 5],
      where pblank = "0x5000" and hash = "0x7000" and m = ramp and pbegin = "0x100"
        and pend = "0x100" and pResult = "0x200"]
  have a: "(0x5000 :: addr) \<notin> region 0x200 HASH256_SIZE \<union> region 0x7000 (5 * HASH512_SIZE)"
    by (simp add: region_def HASH256_SIZE_def HASH512_SIZE_def)
  have b: "(0x220 :: addr) \<notin> region 0x200 HASH256_SIZE \<union> region 0x7000 (5 * HASH512_SIZE)"
    by (simp add: region_def HASH256_SIZE_def HASH512_SIZE_def)
  have c: "blake_data 0x5000 0x100 0x100 = 0x5000" by (simp add: blake_data_def)
  have d: "(0x100 :: addr) \<noteq> 0x5000" by simp
  show ?thesis using run a b c d by blast
qed

end
